theory Spec2Isabelle
  imports Main "HOL-Library.Word" "HOL-Library.Multiset"
begin

section \<open>The object pool of be/src/common/object\_pool.h\<close>

text \<open>
  \<open>ObjectPool\<close> keeps a vector of \<open>Element\<close>s, each a type-erased pointer with the
  function that deletes it, guarded by a mutex. The model is sequential (one thread of
  control). It makes explicit what the C++ leaves implicit:
  \<^item> pool objects live in a store indexed by their address (\<open>this\<close>, \<open>src\<close>), so that two
    pool arguments may or may not be the same pool;
  \<^item> the free store is a map from live addresses to the way they were allocated
    (\<open>new T\<close> or \<open>new T[n]\<close>), and a delete-expression that the language leaves
    undefined is a fault;
  \<^item> \<open>calls\<close> records every invocation \<open>_object.delete_fn(_object.obj)\<close>, oldest first;
  \<^item> \<open>accesses\<close> records every statement that touches a pool's \<open>_objects\<close>, with whether
    that pool's \<open>_lock\<close> was locked at that moment.
  The bodies of the destructors that \<open>delete\<close> runs belong to the pool's clients and are
  not part of the model; neither is exhaustion of memory when the vector grows.
\<close>

subsection \<open>Data\<close>

type_synonym addr = nat

definition nullptr :: addr where
  "nullptr = 0"

text \<open>The template argument \<open>T\<close> of \<open>add\<close> and \<open>add_array\<close>, by name.\<close>

type_synonym cpp_type = string

text \<open>The address of an \<open>ObjectPool\<close> object.\<close>

type_synonym pool_id = nat

datatype alloc_mode = Scalar | Array

text \<open>
  \<open>DeleteFn\<close> is \<open>void (*)(void*)\<close>. The only values the class ever stores are the two
  lambdas of \<open>add<T>\<close> and \<open>add_array<T>\<close>, one pair for each \<open>T\<close>.
\<close>

datatype DeleteFn = Delete_Scalar cpp_type | Delete_Array cpp_type

record Element =
  obj :: addr
  delete_fn :: DeleteFn

datatype fault = Undefined_Behaviour | Deadlock

type_synonym heap = "addr \<rightharpoonup> alloc_mode"

record state =
  objects :: "pool_id \<Rightarrow> Element list"
  lock :: "pool_id \<Rightarrow> bool"
  heap :: heap
  calls :: "Element list"
  accesses :: "(pool_id \<times> bool) list"

text \<open>\<open>ObjectPool() = default\<close>: every pool starts with no objects and a free mutex.\<close>

definition init :: "heap \<Rightarrow> state" where
  "init h = \<lparr>objects = (\<lambda>_. []), lock = (\<lambda>_. False), heap = h, calls = [], accesses = []\<rparr>"

subsection \<open>Deleting\<close>

text \<open>
  \<open>delete p\<close> and \<open>delete[] p\<close>: nothing happens for a null pointer; otherwise \<open>p\<close> must
  be live and must come from the matching form of \<open>new\<close>, and is freed.
\<close>

definition delete_expr :: "alloc_mode \<Rightarrow> addr \<Rightarrow> heap \<Rightarrow> fault + heap" where
  "delete_expr m p h =
     (if p = nullptr then Inr h
      else if h p = Some m then Inr (h(p := None))
      else Inl Undefined_Behaviour)"

text \<open>
  The lambdas \<open>[](void* obj) { delete reinterpret_cast<T*>(obj); }\<close> and
  \<open>[](void* obj) { delete[] reinterpret_cast<T*>(obj); }\<close>, applied to an argument.
\<close>

fun call_delete_fn :: "DeleteFn \<Rightarrow> addr \<Rightarrow> heap \<Rightarrow> fault + heap" where
  "call_delete_fn (Delete_Scalar T) p h = delete_expr Scalar p h"
| "call_delete_fn (Delete_Array T) p h = delete_expr Array p h"

subsection \<open>The mutex\<close>

text \<open>
  \<open>std::lock_guard<std::mutex> l(_lock)\<close> at the head of a member function: the mutex is
  locked for the rest of the body and unlocked on return. Locking a mutex that is already
  locked never returns in a sequential run.
\<close>

definition lock_guard ::
  "pool_id \<Rightarrow> (state \<Rightarrow> fault + 'a \<times> state) \<Rightarrow> state \<Rightarrow> fault + 'a \<times> state" where
  "lock_guard this body s =
     (if lock s this then Inl Deadlock
      else (case body (s\<lparr>lock := (lock s)(this := True)\<rparr>) of
              Inl f \<Rightarrow> Inl f
            | Inr (r, s') \<Rightarrow> Inr (r, s'\<lparr>lock := (lock s')(this := False)\<rparr>)))"

definition touch :: "pool_id \<Rightarrow> state \<Rightarrow> state" where
  "touch this s = s\<lparr>accesses := accesses s @ [(this, lock s this)]\<rparr>"

subsection \<open>Member functions\<close>

definition emplace_back :: "pool_id \<Rightarrow> Element \<Rightarrow> state \<Rightarrow> state" where
  "emplace_back this e s =
     (touch this s)\<lparr>objects := (objects s)(this := objects s this @ [e])\<rparr>"

definition add :: "pool_id \<Rightarrow> cpp_type \<Rightarrow> addr \<Rightarrow> state \<Rightarrow> fault + addr \<times> state" where
  "add this T t s =
     lock_guard this
       (\<lambda>s. Inr (t, emplace_back this \<lparr>obj = t, delete_fn = Delete_Scalar T\<rparr> s)) s"

definition add_array :: "pool_id \<Rightarrow> cpp_type \<Rightarrow> addr \<Rightarrow> state \<Rightarrow> fault + addr \<times> state" where
  "add_array this T t s =
     lock_guard this
       (\<lambda>s. Inr (t, emplace_back this \<lparr>obj = t, delete_fn = Delete_Array T\<rparr> s)) s"

text \<open>
  The loop of \<open>clear\<close>, over the elements in the order the loop visits them (the caller
  passes the reversed vector).
\<close>

fun delete_loop :: "Element list \<Rightarrow> state \<Rightarrow> fault + state" where
  "delete_loop [] s = Inr s"
| "delete_loop (e # es) s =
     (case call_delete_fn (delete_fn e) (obj e) (heap s) of
        Inl f \<Rightarrow> Inl f
      | Inr h \<Rightarrow> delete_loop es (s\<lparr>heap := h, calls := calls s @ [e]\<rparr>))"

definition clear :: "pool_id \<Rightarrow> state \<Rightarrow> fault + unit \<times> state" where
  "clear this s =
     lock_guard this
       (\<lambda>s. case delete_loop (rev (objects s this)) (touch this s) of
               Inl f \<Rightarrow> Inl f
             | Inr s' \<Rightarrow> Inr ((), (touch this s')\<lparr>objects := (objects s')(this := [])\<rparr>)) s"

text \<open>\<open>~ObjectPool() { clear(); }\<close>\<close>

definition destroy :: "pool_id \<Rightarrow> state \<Rightarrow> fault + unit \<times> state" where
  "destroy this s = clear this s"

text \<open>The pools \<open>ps\<close> go out of scope one after the other.\<close>

fun destroy_all :: "pool_id list \<Rightarrow> state \<Rightarrow> fault + state" where
  "destroy_all [] s = Inr s"
| "destroy_all (p # ps) s =
     (case destroy p s of Inl f \<Rightarrow> Inl f | Inr (u, s') \<Rightarrow> destroy_all ps s')"

text \<open>
  \<open>acquire_data\<close> takes no lock guard. \<open>vector::insert\<close> with a range of the vector
  itself is undefined, so \<open>src = this\<close> is a fault.
\<close>

definition acquire_data :: "pool_id \<Rightarrow> pool_id \<Rightarrow> state \<Rightarrow> fault + unit \<times> state" where
  "acquire_data this src s =
     (if src = this then Inl Undefined_Behaviour
      else
        (let s1 = (touch src (touch this s))
                    \<lparr>objects := (objects s)(this := objects s this @ objects s src)\<rparr>;
             s2 = (touch src s1)\<lparr>objects := (objects s1)(src := [])\<rparr>
         in Inr ((), s2)))"

text \<open>\<open>uint64_t size()\<close>\<close>

definition size_pool :: "pool_id \<Rightarrow> state \<Rightarrow> fault + 64 word \<times> state" where
  "size_pool this s =
     lock_guard this
       (\<lambda>s. Inr (word_of_nat (length (objects s this)), touch this s)) s"

subsection \<open>Sequences of calls\<close>

datatype call =
    Add pool_id cpp_type addr
  | Add_Array pool_id cpp_type addr
  | Clear pool_id
  | Acquire_Data pool_id pool_id
  | Size pool_id

fun exec :: "call \<Rightarrow> state \<Rightarrow> fault + state" where
  "exec (Add p T t) s = map_sum id snd (add p T t s)"
| "exec (Add_Array p T t) s = map_sum id snd (add_array p T t s)"
| "exec (Clear p) s = map_sum id snd (clear p s)"
| "exec (Acquire_Data p q) s = map_sum id snd (acquire_data p q s)"
| "exec (Size p) s = map_sum id snd (size_pool p s)"

fun run :: "call list \<Rightarrow> state \<Rightarrow> fault + state" where
  "run [] s = Inr s"
| "run (c # cs) s = (case exec c s of Inl f \<Rightarrow> Inl f | Inr s' \<Rightarrow> run cs s')"

subsection \<open>The caller's side\<close>

text \<open>
  \<open>accept p e\<close> is the call that hands the pointer \<open>obj e\<close> to pool \<open>p\<close> with the deletion
  function \<open>delete_fn e\<close>: \<open>add<T>\<close> for the scalar lambda, \<open>add_array<T>\<close> for the array one.
\<close>

definition accept :: "pool_id \<Rightarrow> Element \<Rightarrow> call" where
  "accept p e =
     (case delete_fn e of
        Delete_Scalar T \<Rightarrow> Add p T (obj e)
      | Delete_Array T \<Rightarrow> Add_Array p T (obj e))"

fun mode_of :: "DeleteFn \<Rightarrow> alloc_mode" where
  "mode_of (Delete_Scalar T) = Scalar"
| "mode_of (Delete_Array T) = Array"

text \<open>
  What the class asks of its callers: a pointer handed to the pool is null, or it is a live
  allocation of the form its deletion function expects and has been handed over once only.
\<close>

definition well_owned :: "heap \<Rightarrow> Element list \<Rightarrow> bool" where
  "well_owned h es =
     (distinct (filter (\<lambda>a. a \<noteq> nullptr) (map obj es)) \<and>
      list_all (\<lambda>e. if obj e = nullptr then True
                     else h (obj e) = Some (mode_of (delete_fn e))) es)"

subsection \<open>Histories\<close>

text \<open>A call that pool \<open>p\<close> serves alone: it accepts, it is cleared or it is asked its size.\<close>

fun own_call :: "pool_id \<Rightarrow> call \<Rightarrow> bool" where
  "own_call p (Add q T t) = (q = p)"
| "own_call p (Add_Array q T t) = (q = p)"
| "own_call p (Clear q) = (q = p)"
| "own_call p (Acquire_Data q r) = False"
| "own_call p (Size q) = (q = p)"

text \<open>The entries that the calls of a history hand to a pool, in the order of the calls.\<close>

fun accepted_by :: "call \<Rightarrow> Element list" where
  "accepted_by (Add q T t) = [\<lparr>obj = t, delete_fn = Delete_Scalar T\<rparr>]"
| "accepted_by (Add_Array q T t) = [\<lparr>obj = t, delete_fn = Delete_Array T\<rparr>]"
| "accepted_by (Clear q) = []"
| "accepted_by (Acquire_Data q r) = []"
| "accepted_by (Size q) = []"

definition accepted :: "call list \<Rightarrow> Element list" where
  "accepted cs = concat (map accepted_by cs)"

text \<open>The pools a call names, and histories that name pools of \<open>ps\<close> only.\<close>

fun pools_of :: "call \<Rightarrow> pool_id list" where
  "pools_of (Add p T t) = [p]"
| "pools_of (Add_Array p T t) = [p]"
| "pools_of (Clear p) = [p]"
| "pools_of (Acquire_Data p q) = [p, q]"
| "pools_of (Size p) = [p]"

definition among :: "pool_id list \<Rightarrow> call list \<Rightarrow> bool" where
  "among ps cs = list_all (\<lambda>c. list_all (\<lambda>q. q \<in> set ps) (pools_of c)) cs"

text \<open>
  \<open>p.acquire_data(&p)\<close> hands \<open>vector::insert\<close> a range of the vector it inserts into,
  which the language leaves undefined; a history is free of it when every call is.
\<close>

fun no_self_acquire :: "call \<Rightarrow> bool" where
  "no_self_acquire (Add p T t) = True"
| "no_self_acquire (Add_Array p T t) = True"
| "no_self_acquire (Clear p) = True"
| "no_self_acquire (Acquire_Data p q) = (p \<noteq> q)"
| "no_self_acquire (Size p) = True"

text \<open>The entries that the pools \<open>ps\<close> hold between them.\<close>

definition held :: "state \<Rightarrow> pool_id list \<Rightarrow> Element list" where
  "held s ps = concat (map (objects s) ps)"

text \<open>
  The number of entries a pool owns and has not released, counted from the history alone:
  one more for each \<open>add\<close> and \<open>add_array\<close>, none after \<open>clear\<close>; \<open>acquire_data\<close> gives
  the receiver what the donor owned and leaves the donor with none.
\<close>

fun owned_step :: "call \<Rightarrow> (pool_id \<Rightarrow> nat) \<Rightarrow> (pool_id \<Rightarrow> nat)" where
  "owned_step (Add p T t) n = n(p := n p + 1)"
| "owned_step (Add_Array p T t) n = n(p := n p + 1)"
| "owned_step (Clear p) n = n(p := 0)"
| "owned_step (Acquire_Data p q) n = n(p := n p + n q, q := 0)"
| "owned_step (Size p) n = n"

definition owned_not_released :: "call list \<Rightarrow> pool_id \<Rightarrow> nat" where
  "owned_not_released cs = fold owned_step cs (\<lambda>_. 0)"

subsection \<open>Auxiliary functions for the proofs\<close>

text \<open>The effect of the loop of \<open>clear\<close> on the free store alone.\<close>

fun free_all :: "Element list \<Rightarrow> heap \<Rightarrow> fault + heap" where
  "free_all [] h = Inr h"
| "free_all (e # es) h =
     (case call_delete_fn (delete_fn e) (obj e) h of
        Inl f \<Rightarrow> Inl f
      | Inr h' \<Rightarrow> free_all es h')"

text \<open>The free store once the non-null pointers of \<open>es\<close> are gone.\<close>

definition freed :: "Element list \<Rightarrow> heap \<Rightarrow> heap" where
  "freed es h = (\<lambda>a. if a \<noteq> nullptr \<and> a \<in> obj ` set es then None else h a)"

subsection \<open>Example states\<close>

definition heap0 :: heap where
  "heap0 = [10 \<mapsto> Scalar, 20 \<mapsto> Array, 30 \<mapsto> Scalar]"

definition three :: "Element list" where
  "three = [\<lparr>obj = 10, delete_fn = Delete_Scalar ''A''\<rparr>,
            \<lparr>obj = 20, delete_fn = Delete_Array ''B''\<rparr>,
            \<lparr>obj = 30, delete_fn = Delete_Scalar ''C''\<rparr>]"

text \<open>Pool 1 holds one object and pool 2 holds two; every mutex is free.\<close>

definition donor_state :: state where
  "donor_state =
     (init heap0)\<lparr>objects := (\<lambda>_. [])
        (1 := [\<lparr>obj = 10, delete_fn = Delete_Scalar ''A''\<rparr>],
         2 := [\<lparr>obj = 20, delete_fn = Delete_Array ''B''\<rparr>,
               \<lparr>obj = 30, delete_fn = Delete_Scalar ''C''\<rparr>])\<rparr>"

definition null_entries :: "Element list" where
  "null_entries = [\<lparr>obj = nullptr, delete_fn = Delete_Scalar ''A''\<rparr>,
                   \<lparr>obj = nullptr, delete_fn = Delete_Array ''B''\<rparr>]"

text \<open>
  Two pools: pool 1 is cleared twice, pool 2 goes on accepting, and pool 1 takes over what
  pool 2 holds.
\<close>

definition lifetimes :: "call list" where
  "lifetimes = [Add 1 ''A'' 10, Add_Array 2 ''B'' 20, Clear 1, Clear 1, Add 2 ''C'' 30,
                Acquire_Data 1 2, Size 1]"

text \<open>Pool 2 accepts one object, then pool 1 takes over what pool 2 holds.\<close>

definition donor_history :: "call list" where
  "donor_history = [Add 2 ''A'' 10, Acquire_Data 1 2]"

definition after_donation :: state where
  "after_donation =
     \<lparr>objects = (\<lambda>_. [])(1 := [\<lparr>obj = 10, delete_fn = Delete_Scalar ''A''\<rparr>]),
      lock = (\<lambda>_. False), heap = heap0, calls = [],
      accesses = [(2, True), (1, False), (2, False), (2, False)]\<rparr>"

section \<open>Closed forms of the member functions\<close>

lemma delete_loop_eq:
  "delete_loop es s =
     (case free_all es (heap s) of Inl f \<Rightarrow> Inl f
      | Inr h \<Rightarrow> Inr (s\<lparr>heap := h, calls := calls s @ es\<rparr>))"
proof (induction es arbitrary: s)
  case Nil
  show ?case by simp
next
  case (Cons e es)
  show ?case
    by (cases "call_delete_fn (delete_fn e) (obj e) (heap s)") (simp_all add: Cons.IH split: sum.splits)
qed

lemma lock_reset: "\<not> lock s p \<Longrightarrow> (lock s)(p := False) = lock s"
  by (simp add: fun_upd_idem_iff)

lemma clear_eq:
  "clear p s =
     (if lock s p then Inl Deadlock
      else case free_all (rev (objects s p)) (heap s) of
             Inl f \<Rightarrow> Inl f
           | Inr h \<Rightarrow> Inr ((), s\<lparr>objects := (objects s)(p := []), heap := h,
                                 calls := calls s @ rev (objects s p),
                                 accesses := accesses s @ [(p, True), (p, True)]\<rparr>))"
  by (cases "free_all (rev (objects s p)) (heap s)")
     (simp_all add: clear_def lock_guard_def touch_def delete_loop_eq lock_reset)

lemma add_eq:
  "add p T t s =
     (if lock s p then Inl Deadlock
      else Inr (t, s\<lparr>objects := (objects s)(p := objects s p @ [\<lparr>obj = t, delete_fn = Delete_Scalar T\<rparr>]),
                      accesses := accesses s @ [(p, True)]\<rparr>))"
  by (simp add: add_def lock_guard_def touch_def emplace_back_def lock_reset)

lemma add_array_eq:
  "add_array p T t s =
     (if lock s p then Inl Deadlock
      else Inr (t, s\<lparr>objects := (objects s)(p := objects s p @ [\<lparr>obj = t, delete_fn = Delete_Array T\<rparr>]),
                      accesses := accesses s @ [(p, True)]\<rparr>))"
  by (simp add: add_array_def lock_guard_def touch_def emplace_back_def lock_reset)

lemma size_pool_eq:
  "size_pool p s =
     (if lock s p then Inl Deadlock
      else Inr (word_of_nat (length (objects s p)), s\<lparr>accesses := accesses s @ [(p, True)]\<rparr>))"
  by (simp add: size_pool_def lock_guard_def touch_def lock_reset)

lemma acquire_data_eq:
  "acquire_data p q s =
     (if q = p then Inl Undefined_Behaviour
      else Inr ((), s\<lparr>objects := (objects s)(p := objects s p @ objects s q, q := []),
                      accesses := accesses s @ [(p, lock s p), (q, lock s q), (q, lock s q)]\<rparr>))"
  by (simp add: acquire_data_def touch_def Let_def)

section \<open>Callers that keep the contract\<close>

lemma call_delete_fn_mode: "call_delete_fn f p h = delete_expr (mode_of f) p h"
  by (cases f) simp_all

lemma well_owned_Cons:
  "well_owned h (e # es) \<Longrightarrow> obj e \<noteq> nullptr \<Longrightarrow>
     h (obj e) = Some (mode_of (delete_fn e)) \<and> obj e \<notin> obj ` set es \<and> well_owned (h(obj e := None)) es"
proof -
  assume w: "well_owned h (e # es)" and n: "obj e \<noteq> nullptr"
  from w n have 1: "h (obj e) = Some (mode_of (delete_fn e))"
    by (simp add: well_owned_def)
  from w n have 2: "obj e \<notin> obj ` set es"
    by (simp add: well_owned_def)
  from w n have d: "distinct (filter (\<lambda>a. a \<noteq> nullptr) (map obj es))"
    by (simp add: well_owned_def)
  from w have a: "list_all (\<lambda>x. if obj x = nullptr then True else h (obj x) = Some (mode_of (delete_fn x))) es"
    by (simp add: well_owned_def)
  have "list_all (\<lambda>x. if obj x = nullptr then True
           else (h(obj e := None)) (obj x) = Some (mode_of (delete_fn x))) es"
    unfolding list_all_iff
  proof
    fix x assume x: "x \<in> set es"
    then have "obj x \<in> obj ` set es" by (rule imageI)
    with 2 have "obj x \<noteq> obj e" by metis
    moreover from a x have "if obj x = nullptr then True else h (obj x) = Some (mode_of (delete_fn x))"
      by (simp add: list_all_iff)
    ultimately show "if obj x = nullptr then True
           else (h(obj e := None)) (obj x) = Some (mode_of (delete_fn x))"
      by simp
  qed
  with d have 3: "well_owned (h(obj e := None)) es"
    by (simp add: well_owned_def)
  from 1 2 3 show ?thesis by simp
qed

lemma well_owned_Cons_null:
  "well_owned h (e # es) \<Longrightarrow> obj e = nullptr \<Longrightarrow> well_owned h es"
  by (auto simp: well_owned_def)

lemma free_all_well_owned:
  "well_owned h es \<Longrightarrow> free_all es h = Inr (freed es h)"
proof (induction es arbitrary: h)
  case Nil
  show ?case by (simp add: freed_def)
next
  case (Cons e es)
  show ?case
  proof (cases "obj e = nullptr")
    case True
    have "well_owned h es" using Cons.prems True by (rule well_owned_Cons_null)
    then have "free_all es h = Inr (freed es h)" by (rule Cons.IH)
    moreover have "freed (e # es) h = freed es h"
      using True by (auto simp: freed_def)
    ultimately show ?thesis
      using True by (simp add: call_delete_fn_mode delete_expr_def)
  next
    case False
    from well_owned_Cons[OF Cons.prems False]
    have live: "h (obj e) = Some (mode_of (delete_fn e))"
      and fresh: "obj e \<notin> obj ` set es"
      and rest: "well_owned (h(obj e := None)) es" by simp_all
    have "free_all es (h(obj e := None)) = Inr (freed es (h(obj e := None)))"
      using rest by (rule Cons.IH)
    moreover have "freed es (h(obj e := None)) = freed (e # es) h"
      using False by (auto simp: freed_def)
    ultimately show ?thesis
      using False live by (simp add: call_delete_fn_mode delete_expr_def)
  qed
qed

lemma well_owned_rev: "well_owned h (rev es) = well_owned h es"
  by (simp add: well_owned_def rev_map[symmetric] rev_filter[symmetric] list_all_iff)

lemma freed_rev: "freed (rev es) h = freed es h"
  by (simp add: freed_def)

lemma clear_well_owned:
  "\<not> lock s p \<Longrightarrow> well_owned (heap s) (objects s p) \<Longrightarrow>
     clear p s = Inr ((), s\<lparr>objects := (objects s)(p := []), heap := freed (objects s p) (heap s),
                             calls := calls s @ rev (objects s p),
                             accesses := accesses s @ [(p, True), (p, True)]\<rparr>)"
  by (simp add: clear_eq free_all_well_owned well_owned_rev freed_rev)

lemma run_append:
  "run (xs @ ys) s = (case run xs s of Inl f \<Rightarrow> Inl f | Inr s' \<Rightarrow> run ys s')"
  by (induction xs arbitrary: s) (simp_all split: sum.splits)

lemma Element_eta: "delete_fn e = f \<Longrightarrow> \<lparr>obj = obj e, delete_fn = f\<rparr> = (e::Element)"
  by (cases e) simp

lemma exec_accept:
  "\<not> lock s p \<Longrightarrow>
     exec (accept p e) s =
       Inr (s\<lparr>objects := (objects s)(p := objects s p @ [e]),
               accesses := accesses s @ [(p, True)]\<rparr>)"
  by (cases "delete_fn e") (simp_all add: accept_def add_eq add_array_eq Element_eta)

lemma run_accepts:
  "\<not> lock s p \<Longrightarrow>
     \<exists>s'. run (map (accept p) es) s = Inr s' \<and>
          objects s' = (objects s)(p := objects s p @ es) \<and>
          lock s' = lock s \<and> heap s' = heap s \<and> calls s' = calls s"
proof (induction es arbitrary: s)
  case Nil
  show ?case by simp
next
  case (Cons e es)
  let ?s1 = "s\<lparr>objects := (objects s)(p := objects s p @ [e]),
               accesses := accesses s @ [(p, True)]\<rparr>"
  have "\<not> lock ?s1 p" using Cons.prems by simp
  from Cons.IH[OF this] obtain s' where
    "run (map (accept p) es) ?s1 = Inr s'"
    "objects s' = (objects ?s1)(p := objects ?s1 p @ es)"
    "lock s' = lock ?s1" "heap s' = heap ?s1" "calls s' = calls ?s1"
    by blast
  then show ?case
    using Cons.prems by (simp add: exec_accept fun_eq_iff)
qed

section \<open>Order of release\<close>

text \<open>
  Claim C2. Let pool \<open>p\<close> accept the objects \<open>es = [O1, ..., On]\<close> in this order, after
  the objects it already holds, and let the caller keep the contract. Then \<open>clear\<close>
  returns, it has invoked the deletion functions of the pool's entries in exactly the
  reverse of the order of acceptance (\<open>On\<close> first, the oldest entry last), and the vector of
  entries is empty afterwards.
\<close>

theorem clear_reverse_order:
  assumes "\<not> lock s p" and "well_owned (heap s) (objects s p @ es)"
  shows "\<exists>s'. run (map (accept p) es @ [Clear p]) s = Inr s' \<and>
              calls s' = calls s @ rev (objects s p @ es) \<and>
              objects s' p = []"
proof -
  from run_accepts[OF assms(1), of es] obtain s1 where
    r: "run (map (accept p) es) s = Inr s1"
    and o: "objects s1 = (objects s)(p := objects s p @ es)"
    and l: "lock s1 = lock s" and h: "heap s1 = heap s" and c: "calls s1 = calls s"
    by blast
  have "\<not> lock s1 p" using l assms(1) by simp
  moreover have "well_owned (heap s1) (objects s1 p)" using o h assms(2) by simp
  ultimately have "clear p s1 =
      Inr ((), s1\<lparr>objects := (objects s1)(p := []), heap := freed (objects s1 p) (heap s1),
                   calls := calls s1 @ rev (objects s1 p),
                   accesses := accesses s1 @ [(p, True), (p, True)]\<rparr>)"
    by (rule clear_well_owned)
  then show ?thesis
    using r o c by (simp add: run_append)
qed

theorem clear_reverse_order_witness:
  "\<not> lock (init heap0) 1 \<and> well_owned (heap (init heap0)) (objects (init heap0) 1 @ three) \<and>
   (\<exists>s'. run [Add 1 ''A'' 10, Add_Array 1 ''B'' 20, Add 1 ''C'' 30, Clear 1] (init heap0) = Inr s' \<and>
     calls s' = [\<lparr>obj = 30, delete_fn = Delete_Scalar ''C''\<rparr>,
                 \<lparr>obj = 20, delete_fn = Delete_Array ''B''\<rparr>,
                 \<lparr>obj = 10, delete_fn = Delete_Scalar ''A''\<rparr>] \<and>
     objects s' 1 = [])"
proof -
  have a: "\<not> lock (init heap0) 1" by (simp add: init_def)
  have b: "well_owned (heap (init heap0)) (objects (init heap0) 1 @ three)"
    by (simp add: init_def heap0_def three_def well_owned_def nullptr_def)
  show ?thesis
    using a b clear_reverse_order[OF a b]
    by (simp add: init_def three_def accept_def)
qed

section \<open>Transfer between pools\<close>

lemma freed_append_nulls:
  "list_all (\<lambda>e. obj e = nullptr) es \<Longrightarrow> freed (xs @ es) h = freed xs h"
  by (auto simp: freed_def list_all_iff fun_eq_iff)

lemma well_owned_append_nulls:
  "list_all (\<lambda>e. obj e = nullptr) es \<Longrightarrow> well_owned h (xs @ es) = well_owned h xs"
proof -
  assume n: "list_all (\<lambda>e. obj e = nullptr) es"
  then have "filter (\<lambda>a. a \<noteq> nullptr) (map obj es) = []"
    by (induction es) simp_all
  moreover from n have "list_all (\<lambda>e. if obj e = nullptr then True else h (obj e) = Some (mode_of (delete_fn e))) es"
    by (simp add: list_all_iff)
  ultimately show ?thesis by (simp add: well_owned_def)
qed

lemma unat_size: "n < 2 ^ 64 \<Longrightarrow> unat (word_of_nat n :: 64 word) = n"
  by (simp add: unat_of_nat)

text \<open>
  Claim C3. For two distinct pools \<open>dst\<close> and \<open>src\<close>, \<open>dst.acquire_data(src)\<close> returns and
  leaves in \<open>dst\<close> its former entries followed by those of \<open>src\<close>, in their former
  order; \<open>src\<close> is empty; no deletion function has been invoked and the free store is
  untouched, and no other pool has changed. When \<open>dst\<close> is cleared afterwards (its mutex
  being free and the caller having kept the contract), the entries that came from \<open>src\<close>
  are released first, newest first, and the former entries of \<open>dst\<close> after them.
\<close>

theorem acquire_data_transfer:
  assumes "dst \<noteq> src"
  shows "\<exists>s'. acquire_data dst src s = Inr ((), s') \<and>
           objects s' = (objects s)(dst := objects s dst @ objects s src, src := []) \<and>
           objects s' dst = objects s dst @ objects s src \<and>
           objects s' src = [] \<and>
           calls s' = calls s \<and> heap s' = heap s \<and>
           (\<not> lock s dst \<and> well_owned (heap s) (objects s dst @ objects s src) \<longrightarrow>
              (\<exists>s''. clear dst s' = Inr ((), s'') \<and>
                 calls s'' = calls s @ rev (objects s src) @ rev (objects s dst) \<and>
                 objects s'' dst = [] \<and>
                 heap s'' = freed (objects s dst @ objects s src) (heap s)))"
proof -
  let ?s' = "s\<lparr>objects := (objects s)(dst := objects s dst @ objects s src, src := []),
               accesses := accesses s @ [(dst, lock s dst), (src, lock s src), (src, lock s src)]\<rparr>"
  have a: "acquire_data dst src s = Inr ((), ?s')"
    using assms by (simp add: acquire_data_eq)
  have o: "objects ?s' dst = objects s dst @ objects s src"
    using assms by simp
  have later: "\<exists>s''. clear dst ?s' = Inr ((), s'') \<and>
                 calls s'' = calls s @ rev (objects s src) @ rev (objects s dst) \<and>
                 objects s'' dst = [] \<and>
                 heap s'' = freed (objects s dst @ objects s src) (heap s)"
    if l: "\<not> lock s dst" and w: "well_owned (heap s) (objects s dst @ objects s src)"
  proof -
    have "\<not> lock ?s' dst" using l by simp
    moreover have "well_owned (heap ?s') (objects ?s' dst)" using w o by simp
    ultimately have "clear dst ?s' =
      Inr ((), ?s'\<lparr>objects := (objects ?s')(dst := []), heap := freed (objects ?s' dst) (heap ?s'),
                   calls := calls ?s' @ rev (objects ?s' dst),
                   accesses := accesses ?s' @ [(dst, True), (dst, True)]\<rparr>)"
      by (rule clear_well_owned)
    then show ?thesis using o by simp
  qed
  show ?thesis
    using a o later assms by (intro exI[of _ ?s']) simp
qed

theorem acquire_data_transfer_witness:
  "(1::pool_id) \<noteq> 2 \<and> \<not> lock donor_state 1 \<and>
   well_owned (heap donor_state) (objects donor_state 1 @ objects donor_state 2) \<and>
   (\<exists>s'. acquire_data 1 2 donor_state = Inr ((), s') \<and>
      objects s' 1 = [\<lparr>obj = 10, delete_fn = Delete_Scalar ''A''\<rparr>,
                      \<lparr>obj = 20, delete_fn = Delete_Array ''B''\<rparr>,
                      \<lparr>obj = 30, delete_fn = Delete_Scalar ''C''\<rparr>] \<and>
      objects s' 2 = [] \<and> calls s' = [] \<and> heap s' = heap0 \<and>
      (\<exists>s''. clear 1 s' = Inr ((), s'') \<and>
         calls s'' = [\<lparr>obj = 30, delete_fn = Delete_Scalar ''C''\<rparr>,
                      \<lparr>obj = 20, delete_fn = Delete_Array ''B''\<rparr>,
                      \<lparr>obj = 10, delete_fn = Delete_Scalar ''A''\<rparr>] \<and>
         objects s'' 1 = []))"
proof -
  have a: "(1::pool_id) \<noteq> 2" by simp
  have b: "\<not> lock donor_state 1" by (simp add: donor_state_def init_def)
  have c: "well_owned (heap donor_state) (objects donor_state 1 @ objects donor_state 2)"
    by (simp add: donor_state_def init_def heap0_def well_owned_def nullptr_def)
  from acquire_data_transfer[OF a, of donor_state] b c
  obtain s' s'' where
    "acquire_data 1 2 donor_state = Inr ((), s')"
    "objects s' 1 = objects donor_state 1 @ objects donor_state 2"
    "objects s' 2 = []" "calls s' = calls donor_state" "heap s' = heap donor_state"
    "clear 1 s' = Inr ((), s'')"
    "calls s'' = calls donor_state @ rev (objects donor_state 2) @ rev (objects donor_state 1)"
    "objects s'' 1 = []"
    by blast
  then show ?thesis
    using a b c by (simp add: donor_state_def init_def)
qed

section \<open>What \<open>add\<close> and \<open>add_array\<close> do\<close>

text \<open>
  Claim C9. When the pool's mutex is free, \<open>add\<close> and \<open>add_array\<close> return, and the value
  they return is the pointer they were given.
\<close>

theorem add_returns_pointer:
  assumes "\<not> lock s p"
  shows "(\<exists>s'. add p T t s = Inr (t, s')) \<and> (\<exists>s'. add_array p T t s = Inr (t, s'))"
  using assms by (simp add: add_eq add_array_eq)

theorem add_returns_pointer_witness:
  "\<not> lock donor_state 2 \<and>
   (\<exists>s'. add 2 ''A'' 30 donor_state = Inr (30, s')) \<and>
   (\<exists>s'. add_array 2 ''A'' 30 donor_state = Inr (30, s'))"
proof -
  have a: "\<not> lock donor_state 2" by (simp add: donor_state_def init_def)
  show ?thesis using a add_returns_pointer[OF a, of "''A''" 30] by simp
qed

text \<open>
  Claim C10. For every pool state with a free mutex and every pointer (null, and already
  registered, included), one call of \<open>add\<close> or of \<open>add_array\<close> appends exactly one
  entry to the pool's vector: the vector is one longer, the entries it held keep their
  positions and contents, no other pool changes, nothing is deleted, and \<open>size()\<close>
  returns one more than before (the vector being short of \<open>2^64 - 1\<close> entries, so that
  the 64-bit result does not wrap).
\<close>

theorem accept_appends_one_entry:
  assumes "\<not> lock s p" and "length (objects s p) + 1 < 2 ^ 64"
  shows "(\<exists>s' n n' sa sb. add p T t s = Inr (t, s') \<and>
            objects s' = (objects s)(p := objects s p @ [\<lparr>obj = t, delete_fn = Delete_Scalar T\<rparr>]) \<and>
            length (objects s' p) = length (objects s p) + 1 \<and>
            take (length (objects s p)) (objects s' p) = objects s p \<and>
            size_pool p s = Inr (n, sa) \<and> size_pool p s' = Inr (n', sb) \<and>
            n' = n + 1 \<and> unat n' = unat n + 1 \<and>
            heap s' = heap s \<and> calls s' = calls s \<and> lock s' = lock s) \<and>
         (\<exists>s' n n' sa sb. add_array p T t s = Inr (t, s') \<and>
            objects s' = (objects s)(p := objects s p @ [\<lparr>obj = t, delete_fn = Delete_Array T\<rparr>]) \<and>
            length (objects s' p) = length (objects s p) + 1 \<and>
            take (length (objects s p)) (objects s' p) = objects s p \<and>
            size_pool p s = Inr (n, sa) \<and> size_pool p s' = Inr (n', sb) \<and>
            n' = n + 1 \<and> unat n' = unat n + 1 \<and>
            heap s' = heap s \<and> calls s' = calls s \<and> lock s' = lock s)"
proof -
  let ?n = "length (objects s p)"
  have "unat (word_of_nat (Suc ?n) :: 64 word) = Suc ?n"
    using assms(2) by (intro unat_size) simp
  moreover have "unat (word_of_nat ?n :: 64 word) = ?n"
    using assms(2) by (intro unat_size) simp
  moreover have "(word_of_nat (Suc ?n) :: 64 word) = 1 + word_of_nat ?n"
    by simp
  ultimately have u: "unat (1 + word_of_nat ?n :: 64 word) = Suc (unat (word_of_nat ?n :: 64 word))"
    by (simp only:)
  then have u': "unat (word_of_nat ?n + 1 :: 64 word) = Suc (unat (word_of_nat ?n :: 64 word))"
    by (simp only: add.commute)
  show ?thesis
    using assms(1) u u' by (simp add: add_eq add_array_eq size_pool_eq)
qed

theorem accept_appends_one_entry_witness:
  "\<not> lock donor_state 1 \<and> length (objects donor_state 1) + 1 < 2 ^ 64 \<and>
   (\<exists>s' sa sb. add 1 ''A'' 10 donor_state = Inr (10, s') \<and>
      objects s' 1 = [\<lparr>obj = 10, delete_fn = Delete_Scalar ''A''\<rparr>,
                      \<lparr>obj = 10, delete_fn = Delete_Scalar ''A''\<rparr>] \<and>
      objects s' 2 = objects donor_state 2 \<and>
      size_pool 1 donor_state = Inr (1, sa) \<and> size_pool 1 s' = Inr (2, sb)) \<and>
   (\<exists>s' sa sb. add_array 1 ''B'' nullptr donor_state = Inr (nullptr, s') \<and>
      objects s' 1 = [\<lparr>obj = 10, delete_fn = Delete_Scalar ''A''\<rparr>,
                      \<lparr>obj = nullptr, delete_fn = Delete_Array ''B''\<rparr>] \<and>
      size_pool 1 donor_state = Inr (1, sa) \<and> size_pool 1 s' = Inr (2, sb))"
proof -
  have a: "\<not> lock donor_state 1" by (simp add: donor_state_def init_def)
  have b: "length (objects donor_state 1) + 1 < 2 ^ 64" by (simp add: donor_state_def init_def)
  show ?thesis
    using a b accept_appends_one_entry[OF a b, of "''A''" 10]
      accept_appends_one_entry[OF a b, of "''B''" nullptr]
    by (simp add: donor_state_def init_def add_eq add_array_eq size_pool_eq)
qed

lemma clear_heap_after_accept:
  assumes "\<not> lock s p"
  shows "map_sum id (heap \<circ> snd)
           (clear p (s\<lparr>objects := (objects s)(p := objects s p @ [e]), accesses := a\<rparr>)) =
         (case call_delete_fn (delete_fn e) (obj e) (heap s) of
            Inl f \<Rightarrow> Inl f
          | Inr h' \<Rightarrow> map_sum id (heap \<circ> snd) (clear p (s\<lparr>heap := h'\<rparr>)))"
  using assms by (simp add: clear_eq split: sum.splits)

text \<open>
  Claim C4. The entry that \<open>add<T>(t)\<close> appends carries the scalar deletion function of
  \<open>T\<close>, and the entry that \<open>add_array<T>(t)\<close> appends carries the array one. So a later
  \<open>clear\<close> of the pool first does what \<open>delete t\<close> (respectively \<open>delete[] t\<close>) does to
  the free store, and goes on as it would have on the pool without that entry.
\<close>

theorem allocation_mode_fidelity:
  assumes "\<not> lock s p"
  shows "(\<exists>s'. add p T t s = Inr (t, s') \<and>
            objects s' p = objects s p @ [\<lparr>obj = t, delete_fn = Delete_Scalar T\<rparr>] \<and>
            call_delete_fn (delete_fn (last (objects s' p))) (obj (last (objects s' p))) h =
              delete_expr Scalar t h \<and>
            map_sum id (heap \<circ> snd) (clear p s') =
              (case delete_expr Scalar t (heap s) of
                 Inl f \<Rightarrow> Inl f
               | Inr h' \<Rightarrow> map_sum id (heap \<circ> snd) (clear p (s\<lparr>heap := h'\<rparr>)))) \<and>
         (\<exists>s'. add_array p T t s = Inr (t, s') \<and>
            objects s' p = objects s p @ [\<lparr>obj = t, delete_fn = Delete_Array T\<rparr>] \<and>
            call_delete_fn (delete_fn (last (objects s' p))) (obj (last (objects s' p))) h =
              delete_expr Array t h \<and>
            map_sum id (heap \<circ> snd) (clear p s') =
              (case delete_expr Array t (heap s) of
                 Inl f \<Rightarrow> Inl f
               | Inr h' \<Rightarrow> map_sum id (heap \<circ> snd) (clear p (s\<lparr>heap := h'\<rparr>))))"
  using assms clear_heap_after_accept[OF assms]
  by (simp add: add_eq add_array_eq)

text \<open>
  At a pointer that \<open>new\<close> returned: registered with \<open>add\<close> it is freed by \<open>clear\<close>,
  registered with \<open>add_array\<close> the same \<open>clear\<close> is undefined.
\<close>

theorem allocation_mode_fidelity_witness:
  "\<not> lock (init heap0) 1 \<and>
   (\<exists>s'. add 1 ''A'' 10 (init heap0) = Inr (10, s') \<and>
      objects s' 1 = [\<lparr>obj = 10, delete_fn = Delete_Scalar ''A''\<rparr>] \<and>
      map_sum id (heap \<circ> snd) (clear 1 s') = Inr [20 \<mapsto> Array, 30 \<mapsto> Scalar]) \<and>
   (\<exists>s'. add_array 1 ''A'' 10 (init heap0) = Inr (10, s') \<and>
      objects s' 1 = [\<lparr>obj = 10, delete_fn = Delete_Array ''A''\<rparr>] \<and>
      map_sum id (heap \<circ> snd) (clear 1 s') = Inl Undefined_Behaviour)"
proof -
  have a: "\<not> lock (init heap0) 1" by (simp add: init_def)
  have d1: "delete_expr Scalar 10 heap0 = Inr [20 \<mapsto> Array, 30 \<mapsto> Scalar]"
    by (auto simp: delete_expr_def heap0_def nullptr_def fun_eq_iff)
  have d2: "delete_expr Array 10 heap0 = Inl Undefined_Behaviour"
    by (simp add: delete_expr_def heap0_def nullptr_def)
  have h: "heap (init heap0) = heap0" and o: "objects (init heap0) 1 = []"
    by (simp_all add: init_def)
  have c: "map_sum id (heap \<circ> snd) (clear 1 ((init heap0)\<lparr>heap := [20 \<mapsto> Array, 30 \<mapsto> Scalar]\<rparr>)) =
      Inr [20 \<mapsto> Array, 30 \<mapsto> Scalar]"
    by (simp add: clear_eq init_def)
  from allocation_mode_fidelity[OF a, of "''A''" 10 heap0]
  show ?thesis
    unfolding h o d1 d2 using a c by auto
qed

section \<open>Clearing\<close>

text \<open>
  Claim C8. \<open>clear\<close> on a pool that holds nothing (its mutex being free) returns and
  changes nothing but the record of accesses: no deletion function is invoked, the free
  store and every pool stay as they were. This holds for a pool just constructed, and
  for a pool that a \<open>clear\<close> has just returned from.
\<close>

theorem clear_empty_idempotent:
  "(\<not> lock s p \<and> objects s p = [] \<longrightarrow>
      clear p s = Inr ((), s\<lparr>accesses := accesses s @ [(p, True), (p, True)]\<rparr>)) \<and>
   clear p (init h) = Inr ((), (init h)\<lparr>accesses := [(p, True), (p, True)]\<rparr>) \<and>
   (clear p s0 = Inr ((), s1) \<longrightarrow>
      clear p s1 = Inr ((), s1\<lparr>accesses := accesses s1 @ [(p, True), (p, True)]\<rparr>))"
proof -
  have e: "clear p s = Inr ((), s\<lparr>accesses := accesses s @ [(p, True), (p, True)]\<rparr>)"
    if "\<not> lock s p" and "objects s p = []" for s
  proof -
    have "(objects s)(p := []) = objects s" using that(2) by (simp add: fun_upd_idem_iff)
    then show ?thesis using that by (simp add: clear_eq)
  qed
  have i: "clear p (init h) = Inr ((), (init h)\<lparr>accesses := [(p, True), (p, True)]\<rparr>)"
    using e[of "init h"] by (simp add: init_def)
  have c: "\<not> lock s1 p \<and> objects s1 p = []" if "clear p s0 = Inr ((), s1)"
    using that by (auto simp: clear_eq split: if_splits sum.splits)
  show ?thesis using e i c by blast
qed

theorem clear_empty_idempotent_witness:
  "\<not> lock (init heap0) 1 \<and> objects (init heap0) 1 = [] \<and>
   clear 1 (init heap0) = Inr ((), (init heap0)\<lparr>accesses := [(1, True), (1, True)]\<rparr>) \<and>
   (\<exists>s1. clear 1 donor_state = Inr ((), s1) \<and>
      calls s1 = [\<lparr>obj = 10, delete_fn = Delete_Scalar ''A''\<rparr>] \<and>
      clear 1 s1 = Inr ((), s1\<lparr>accesses := accesses s1 @ [(1, True), (1, True)]\<rparr>))"
proof -
  have a: "\<not> lock (init heap0) 1" and b: "objects (init heap0) 1 = []"
    by (simp_all add: init_def)
  have "\<not> lock donor_state 1" by (simp add: donor_state_def init_def)
  moreover have "well_owned (heap donor_state) (objects donor_state 1)"
    by (simp add: donor_state_def init_def heap0_def well_owned_def nullptr_def)
  ultimately obtain s1 where c: "clear 1 donor_state = Inr ((), s1)"
    and d: "calls s1 = calls donor_state @ rev (objects donor_state 1)"
    by (simp add: clear_well_owned)
  from d have d': "calls s1 = [\<lparr>obj = 10, delete_fn = Delete_Scalar ''A''\<rparr>]"
    by (simp add: donor_state_def init_def)
  show ?thesis
    using a b c d' clear_empty_idempotent[of "init heap0" 1 heap0 donor_state s1]
    by (simp add: init_def)
qed

text \<open>
  Claim C7. \<open>add\<close> and \<open>add_array\<close> accept a null pointer as they accept any other
  (they return it, the mutex being free). A deletion function applied to the null pointer
  returns and leaves the free store as it is. So when a pool whose entries keep the
  contract accepts null pointers \<open>es\<close> in addition, \<open>clear\<close> returns; it has invoked the
  deletion functions of the null entries too, and the free store is what clearing the
  pool without them would have left.
\<close>

theorem null_tolerance:
  assumes "\<not> lock s p"
    and "list_all (\<lambda>e. obj e = nullptr) es"
    and "well_owned (heap s) (objects s p)"
  shows "(\<exists>s'. add p T nullptr s = Inr (nullptr, s')) \<and>
         (\<exists>s'. add_array p T nullptr s = Inr (nullptr, s')) \<and>
         call_delete_fn f nullptr h = Inr h \<and>
         (\<exists>s1 s2. run (map (accept p) es) s = Inr s1 \<and>
            objects s1 p = objects s p @ es \<and>
            clear p s1 = Inr ((), s2) \<and>
            calls s2 = calls s @ rev es @ rev (objects s p) \<and>
            heap s2 = freed (objects s p) (heap s) \<and>
            objects s2 p = [])"
proof -
  from run_accepts[OF assms(1), of es] obtain s1 where
    r: "run (map (accept p) es) s = Inr s1"
    and o: "objects s1 = (objects s)(p := objects s p @ es)"
    and l: "lock s1 = lock s" and h: "heap s1 = heap s" and c: "calls s1 = calls s"
    by blast
  have "\<not> lock s1 p" using l assms(1) by simp
  moreover have "well_owned (heap s1) (objects s1 p)"
    using o h assms(2,3) by (simp add: well_owned_append_nulls)
  ultimately have "clear p s1 =
      Inr ((), s1\<lparr>objects := (objects s1)(p := []), heap := freed (objects s1 p) (heap s1),
                   calls := calls s1 @ rev (objects s1 p),
                   accesses := accesses s1 @ [(p, True), (p, True)]\<rparr>)"
    by (rule clear_well_owned)
  then have "\<exists>s2. clear p s1 = Inr ((), s2) \<and>
            calls s2 = calls s @ rev es @ rev (objects s p) \<and>
            heap s2 = freed (objects s p) (heap s) \<and>
            objects s2 p = []"
    using o h c assms(2) by (simp add: freed_append_nulls)
  with r o have "\<exists>s1 s2. run (map (accept p) es) s = Inr s1 \<and>
            objects s1 p = objects s p @ es \<and>
            clear p s1 = Inr ((), s2) \<and>
            calls s2 = calls s @ rev es @ rev (objects s p) \<and>
            heap s2 = freed (objects s p) (heap s) \<and>
            objects s2 p = []"
    by auto
  moreover have "call_delete_fn f nullptr h = Inr h"
    by (simp add: call_delete_fn_mode delete_expr_def)
  ultimately show ?thesis
    using assms(1) by (simp add: add_eq add_array_eq)
qed

theorem null_tolerance_witness:
  "\<not> lock (init heap0) 1 \<and> list_all (\<lambda>e. obj e = nullptr) null_entries \<and>
   well_owned (heap (init heap0)) (objects (init heap0) 1) \<and>
   (\<exists>s'. add 1 ''A'' nullptr (init heap0) = Inr (nullptr, s')) \<and>
   (\<exists>s'. add_array 1 ''A'' nullptr (init heap0) = Inr (nullptr, s')) \<and>
   call_delete_fn (Delete_Array ''B'') nullptr heap0 = Inr heap0 \<and>
   (\<exists>s1 s2. run [Add 1 ''A'' nullptr, Add_Array 1 ''B'' nullptr] (init heap0) = Inr s1 \<and>
      objects s1 1 = null_entries \<and>
      clear 1 s1 = Inr ((), s2) \<and>
      calls s2 = rev null_entries \<and> heap s2 = heap0 \<and> objects s2 1 = [])"
proof -
  have a: "\<not> lock (init heap0) 1" by (simp add: init_def)
  have b: "list_all (\<lambda>e. obj e = nullptr) null_entries" by (simp add: null_entries_def)
  have c: "well_owned (heap (init heap0)) (objects (init heap0) 1)"
    by (simp add: init_def well_owned_def)
  have f: "freed [] heap0 = heap0" by (simp add: freed_def)
  show ?thesis
    using a b c null_tolerance[OF a b c, of "''A''" "Delete_Array ''B''" heap0] f
    by (simp add: init_def null_entries_def accept_def)
qed

section \<open>Every accepted object is released once\<close>

lemma destroy_all_eq: "destroy_all ps s = run (map Clear ps) s"
  by (induction ps arbitrary: s) (auto simp: destroy_def split: sum.splits)

lemma map_upd_other: "p \<notin> set ps \<Longrightarrow> map (f(p := v)) ps = map f ps"
  by (induction ps) auto

lemma mset_concat_upd:
  "distinct ps \<Longrightarrow> p \<in> set ps \<Longrightarrow>
     mset (concat (map (f(p := v)) ps)) + mset (f p) = mset (concat (map f ps)) + mset v"
proof (induction ps)
  case Nil
  then show ?case by simp
next
  case (Cons q ps)
  show ?case
  proof (cases "q = p")
    case True
    then have "p \<notin> set ps" using Cons.prems(1) by simp
    then have "map (f(p := v)) ps = map f ps" by (rule map_upd_other)
    moreover have "(f(p := v)) p = v" by simp
    ultimately have "concat (map (f(p := v)) (p # ps)) = v @ concat (map f ps)"
      by (simp only: list.map concat.simps)
    then have "mset (concat (map (f(p := v)) (p # ps))) = mset v + mset (concat (map f ps))"
      by (simp only: mset_append)
    moreover have "mset (concat (map f (p # ps))) = mset (f p) + mset (concat (map f ps))"
      by (simp only: list.map concat.simps mset_append)
    ultimately show ?thesis unfolding True by (simp only: ac_simps)
  next
    case False
    then have "p \<in> set ps" "distinct ps" using Cons.prems by auto
    from Cons.IH[OF this(2,1)] False show ?thesis by (simp add: add.assoc)
  qed
qed

lemma held_upd:
  "distinct ps \<Longrightarrow> p \<in> set ps \<Longrightarrow>
     mset (held (s\<lparr>objects := (objects s)(p := v)\<rparr>) ps) + mset (objects s p) =
     mset (held s ps) + mset v"
  by (simp add: held_def mset_concat_upd)

lemma held_cong: "objects s' = objects s \<Longrightarrow> held s' ps = held s ps"
  by (simp add: held_def)

lemma exec_ledger:
  assumes "distinct ps" and "list_all (\<lambda>q. q \<in> set ps) (pools_of c)" and "exec c s = Inr s'"
  shows "\<exists>rel. calls s' = calls s @ rel \<and>
           mset rel + mset (held s' ps) = mset (held s ps) + mset (accepted_by c)"
proof (cases c)
  case (Add p T t)
  let ?e = "\<lparr>obj = t, delete_fn = Delete_Scalar T\<rparr>"
  from Add assms(2) have p: "p \<in> set ps" by simp
  from Add assms(3) have o: "objects s' = (objects s)(p := objects s p @ [?e])"
    and c: "calls s' = calls s"
    by (auto simp: add_eq split: if_splits)
  have "held s' ps = held (s\<lparr>objects := (objects s)(p := objects s p @ [?e])\<rparr>) ps"
    by (rule held_cong) (simp add: o)
  with held_upd[OF assms(1) p, of s "objects s p @ [?e]"]
  have "mset (held s' ps) = mset (held s ps) + {#?e#}" by simp
  with c Add show ?thesis by simp
next
  case (Add_Array p T t)
  let ?e = "\<lparr>obj = t, delete_fn = Delete_Array T\<rparr>"
  from Add_Array assms(2) have p: "p \<in> set ps" by simp
  from Add_Array assms(3) have o: "objects s' = (objects s)(p := objects s p @ [?e])"
    and c: "calls s' = calls s"
    by (auto simp: add_array_eq split: if_splits)
  have "held s' ps = held (s\<lparr>objects := (objects s)(p := objects s p @ [?e])\<rparr>) ps"
    by (rule held_cong) (simp add: o)
  with held_upd[OF assms(1) p, of s "objects s p @ [?e]"]
  have "mset (held s' ps) = mset (held s ps) + {#?e#}" by simp
  with c Add_Array show ?thesis by simp
next
  case (Clear p)
  from Clear assms(2) have p: "p \<in> set ps" by simp
  from Clear assms(3) have o: "objects s' = (objects s)(p := [])"
    and c: "calls s' = calls s @ rev (objects s p)"
    by (auto simp: clear_eq split: if_splits sum.splits)
  have "held s' ps = held (s\<lparr>objects := (objects s)(p := [])\<rparr>) ps"
    by (rule held_cong) (simp add: o)
  with held_upd[OF assms(1) p, of s "[]"]
  have "mset (held s' ps) + mset (objects s p) = mset (held s ps)" by simp
  then have "mset (rev (objects s p)) + mset (held s' ps) = mset (held s ps) + mset (accepted_by c)"
    using Clear by (simp add: add.commute)
  with c show ?thesis by blast
next
  case (Acquire_Data p q)
  from Acquire_Data assms(2) have p: "p \<in> set ps" and q: "q \<in> set ps" by simp_all
  from Acquire_Data assms(3) have ne: "q \<noteq> p"
    and o: "objects s' = (objects s)(p := objects s p @ objects s q, q := [])"
    and c: "calls s' = calls s"
    by (auto simp: acquire_data_eq split: if_splits)
  let ?s1 = "s\<lparr>objects := (objects s)(p := objects s p @ objects s q)\<rparr>"
  have 1: "mset (held ?s1 ps) + mset (objects s p) =
           mset (held s ps) + mset (objects s p @ objects s q)"
    by (rule held_upd[OF assms(1) p])
  have "held s' ps = held (?s1\<lparr>objects := (objects ?s1)(q := [])\<rparr>) ps"
    by (rule held_cong) (simp add: o)
  with held_upd[OF assms(1) q, of ?s1 "[]"] ne
  have 2: "mset (held s' ps) + mset (objects s q) = mset (held ?s1 ps)" by simp
  have "mset (held s' ps) + (mset (objects s q) + mset (objects s p)) =
        mset (held s ps) + (mset (objects s q) + mset (objects s p))"
    using 1 2 by (simp add: ac_simps)
  then have "mset (held s' ps) = mset (held s ps)" by simp
  with c Acquire_Data show ?thesis by simp
next
  case (Size p)
  from Size assms(3) have "s' = s\<lparr>accesses := accesses s @ [(p, True)]\<rparr>"
    by (cases "lock s p") (simp_all add: size_pool_eq)
  then have o: "objects s' = objects s" and c: "calls s' = calls s"
    by simp_all
  from o have "held s' ps = held s ps" by (rule held_cong)
  with c Size show ?thesis by simp
qed

lemma run_ledger:
  "distinct ps \<Longrightarrow> among ps cs \<Longrightarrow> run cs s = Inr s' \<Longrightarrow>
     \<exists>rel. calls s' = calls s @ rel \<and>
       mset rel + mset (held s' ps) = mset (held s ps) + mset (accepted cs)"
proof (induction cs arbitrary: s)
  case Nil
  then show ?case by (simp add: accepted_def)
next
  case (Cons c cs)
  from Cons.prems(3) obtain s1 where e: "exec c s = Inr s1" and r: "run cs s1 = Inr s'"
    by (auto split: sum.splits)
  from Cons.prems(2) have oc: "list_all (\<lambda>q. q \<in> set ps) (pools_of c)" and ocs: "among ps cs"
    by (simp_all add: among_def)
  from exec_ledger[OF Cons.prems(1) oc e] obtain rel1 where
    c1: "calls s1 = calls s @ rel1"
    and m1: "mset rel1 + mset (held s1 ps) = mset (held s ps) + mset (accepted_by c)"
    by blast
  from Cons.IH[OF Cons.prems(1) ocs r] obtain rel2 where
    c2: "calls s' = calls s1 @ rel2"
    and m2: "mset rel2 + mset (held s' ps) = mset (held s1 ps) + mset (accepted cs)"
    by blast
  have "calls s' = calls s @ (rel1 @ rel2)" using c1 c2 by simp
  moreover have "mset (rel1 @ rel2) + mset (held s' ps) =
      mset (held s ps) + mset (accepted (c # cs))"
  proof -
    have "mset (rel1 @ rel2) + mset (held s' ps) = mset rel1 + (mset rel2 + mset (held s' ps))"
      by simp
    also have "\<dots> = mset rel1 + (mset (held s1 ps) + mset (accepted cs))"
      by (simp only: m2)
    also have "\<dots> = (mset rel1 + mset (held s1 ps)) + mset (accepted cs)"
      by simp
    also have "\<dots> = (mset (held s ps) + mset (accepted_by c)) + mset (accepted cs)"
      by (simp only: m1)
    also have "\<dots> = mset (held s ps) + mset (accepted (c # cs))"
      by (simp add: accepted_def)
    finally show ?thesis .
  qed
  ultimately show ?case by blast
qed

lemma run_clears_objects:
  "run (map Clear qs) s = Inr s' \<Longrightarrow>
     objects s' = (\<lambda>p. if p \<in> set qs then [] else objects s p)"
proof (induction qs arbitrary: s)
  case Nil
  then show ?case by simp
next
  case (Cons q qs)
  from Cons.prems obtain s1 where e: "clear q s = Inr ((), s1)" and r: "run (map Clear qs) s1 = Inr s'"
    by (auto split: sum.splits simp: map_sum_def)
  from e have "objects s1 = (objects s)(q := [])"
    by (auto simp: clear_eq split: if_splits sum.splits)
  with Cons.IH[OF r] show ?case by (auto simp: fun_eq_iff)
qed

lemma among_append: "among ps (xs @ ys) = (among ps xs \<and> among ps ys)"
  by (simp add: among_def)

lemma among_clears: "among ps (map Clear ps)"
  by (simp add: among_def list_all_iff)

lemma accepted_append: "accepted (xs @ ys) = accepted xs @ accepted ys"
  by (simp add: accepted_def)

lemma accepted_clears: "accepted (map Clear ps) = []"
  by (induction ps) (simp_all add: accepted_def)

lemma held_empty: "list_all (\<lambda>p. objects s p = []) ps \<Longrightarrow> held s ps = []"
  by (simp add: held_def list_all_iff)

lemma well_owned_mset:
  assumes "mset xs = mset ys"
  shows "well_owned h xs = well_owned h ys"
proof -
  have "mset (filter (\<lambda>a. a \<noteq> nullptr) (map obj xs)) = mset (filter (\<lambda>a. a \<noteq> nullptr) (map obj ys))"
    using assms by (simp only: mset_filter mset_map)
  then have "distinct (filter (\<lambda>a. a \<noteq> nullptr) (map obj xs)) =
             distinct (filter (\<lambda>a. a \<noteq> nullptr) (map obj ys))"
    by (rule mset_eq_imp_distinct_iff)
  moreover have "set xs = set ys" using assms by (rule mset_eq_setD)
  ultimately show ?thesis by (simp add: well_owned_def list_all_iff)
qed

lemma well_owned_append_left: "well_owned h (xs @ ys) \<Longrightarrow> well_owned h xs"
  by (simp add: well_owned_def)

lemma well_owned_freed:
  assumes "well_owned h (xs @ ys)"
  shows "well_owned (freed xs h) ys"
proof -
  from assms have d: "distinct (filter (\<lambda>a. a \<noteq> nullptr) (map obj ys))"
    and disj: "set (filter (\<lambda>a. a \<noteq> nullptr) (map obj xs)) \<inter>
               set (filter (\<lambda>a. a \<noteq> nullptr) (map obj ys)) = {}"
    and a: "list_all (\<lambda>e. if obj e = nullptr then True
                     else h (obj e) = Some (mode_of (delete_fn e))) ys"
    by (simp_all add: well_owned_def)
  have "list_all (\<lambda>e. if obj e = nullptr then True
                     else freed xs h (obj e) = Some (mode_of (delete_fn e))) ys"
    unfolding list_all_iff
  proof
    fix y assume y: "y \<in> set ys"
    show "if obj y = nullptr then True else freed xs h (obj y) = Some (mode_of (delete_fn y))"
    proof (cases "obj y = nullptr")
      case True
      then show ?thesis by simp
    next
      case False
      with y have "obj y \<in> set (filter (\<lambda>a. a \<noteq> nullptr) (map obj ys))" by simp
      with disj have "obj y \<notin> set (filter (\<lambda>a. a \<noteq> nullptr) (map obj xs))" by blast
      with False have "obj y \<notin> obj ` set xs" by simp
      then have "freed xs h (obj y) = h (obj y)" by (simp add: freed_def)
      moreover from a y False have "h (obj y) = Some (mode_of (delete_fn y))"
        by (simp add: list_all_iff)
      ultimately show ?thesis using False by simp
    qed
  qed
  with d show ?thesis by (simp add: well_owned_def)
qed

lemma freed_Nil: "freed [] h = h"
  by (simp add: freed_def)

lemma freed_append: "freed (xs @ ys) h = freed ys (freed xs h)"
  by (auto simp: freed_def fun_eq_iff)

lemma freed_set: "set xs = set ys \<Longrightarrow> freed xs h = freed ys h"
  by (simp add: freed_def)

lemma exec_contract:
  assumes d: "distinct ps" and w: "list_all (\<lambda>q. q \<in> set ps) (pools_of c)"
    and n: "no_self_acquire c" and l: "list_all (\<lambda>p. \<not> lock s p) ps"
    and o: "well_owned (heap s) (held s ps @ accepted_by c @ rest)"
  shows "\<exists>s' rel. exec c s = Inr s' \<and> lock s' = lock s \<and>
           calls s' = calls s @ rel \<and> heap s' = freed rel (heap s) \<and>
           well_owned (heap s') (held s' ps @ rest)"
proof (cases c)
  case (Add p T t)
  let ?e = "\<lparr>obj = t, delete_fn = Delete_Scalar T\<rparr>"
  let ?s' = "s\<lparr>objects := (objects s)(p := objects s p @ [?e]),
               accesses := accesses s @ [(p, True)]\<rparr>"
  from Add w have p: "p \<in> set ps" by simp
  with l have lp: "\<not> lock s p" by (simp add: list_all_iff)
  then have e: "exec c s = Inr ?s'" using Add by (simp add: add_eq)
  have "held ?s' ps = held (s\<lparr>objects := (objects s)(p := objects s p @ [?e])\<rparr>) ps"
    by (rule held_cong) simp
  with held_upd[OF d p, of s "objects s p @ [?e]"]
  have "mset (held ?s' ps) = mset (held s ps) + {#?e#}" by simp
  then have "mset (held ?s' ps @ rest) = mset (held s ps @ accepted_by c @ rest)"
    using Add by simp
  from well_owned_mset[OF this] o have "well_owned (heap ?s') (held ?s' ps @ rest)" by simp
  moreover have "calls ?s' = calls s @ []" "heap ?s' = freed [] (heap s)" "lock ?s' = lock s"
    by (simp_all add: freed_Nil)
  ultimately show ?thesis using e by blast
next
  case (Add_Array p T t)
  let ?e = "\<lparr>obj = t, delete_fn = Delete_Array T\<rparr>"
  let ?s' = "s\<lparr>objects := (objects s)(p := objects s p @ [?e]),
               accesses := accesses s @ [(p, True)]\<rparr>"
  from Add_Array w have p: "p \<in> set ps" by simp
  with l have lp: "\<not> lock s p" by (simp add: list_all_iff)
  then have e: "exec c s = Inr ?s'" using Add_Array by (simp add: add_array_eq)
  have "held ?s' ps = held (s\<lparr>objects := (objects s)(p := objects s p @ [?e])\<rparr>) ps"
    by (rule held_cong) simp
  with held_upd[OF d p, of s "objects s p @ [?e]"]
  have "mset (held ?s' ps) = mset (held s ps) + {#?e#}" by simp
  then have "mset (held ?s' ps @ rest) = mset (held s ps @ accepted_by c @ rest)"
    using Add_Array by simp
  from well_owned_mset[OF this] o have "well_owned (heap ?s') (held ?s' ps @ rest)" by simp
  moreover have "calls ?s' = calls s @ []" "heap ?s' = freed [] (heap s)" "lock ?s' = lock s"
    by (simp_all add: freed_Nil)
  ultimately show ?thesis using e by blast
next
  case (Clear p)
  let ?s0 = "s\<lparr>objects := (objects s)(p := [])\<rparr>"
  let ?s' = "s\<lparr>objects := (objects s)(p := []), heap := freed (objects s p) (heap s),
               calls := calls s @ rev (objects s p),
               accesses := accesses s @ [(p, True), (p, True)]\<rparr>"
  from Clear w have p: "p \<in> set ps" by simp
  with l have lp: "\<not> lock s p" by (simp add: list_all_iff)
  have h0: "held ?s' ps = held ?s0 ps" by (rule held_cong) simp
  from held_upd[OF d p, of s "[]"]
  have "mset (held ?s0 ps) + mset (objects s p) = mset (held s ps)" by simp
  then have "mset (held s ps @ accepted_by c @ rest) = mset (objects s p @ (held ?s0 ps @ rest))"
    using Clear by (simp add: ac_simps)
  from well_owned_mset[OF this] o
  have wo: "well_owned (heap s) (objects s p @ (held ?s0 ps @ rest))" by simp
  then have "well_owned (heap s) (objects s p)" by (rule well_owned_append_left)
  with lp have "clear p s = Inr ((), ?s')" by (rule clear_well_owned)
  then have e: "exec c s = Inr ?s'" using Clear by simp
  from wo have "well_owned (freed (objects s p) (heap s)) (held ?s0 ps @ rest)"
    by (rule well_owned_freed)
  then have "well_owned (heap ?s') (held ?s' ps @ rest)" using h0 by simp
  moreover have "calls ?s' = calls s @ rev (objects s p)"
    "heap ?s' = freed (rev (objects s p)) (heap s)" "lock ?s' = lock s"
    by (simp_all add: freed_rev)
  ultimately show ?thesis using e by blast
next
  case (Acquire_Data p q)
  let ?s' = "s\<lparr>objects := (objects s)(p := objects s p @ objects s q, q := []),
               accesses := accesses s @ [(p, lock s p), (q, lock s q), (q, lock s q)]\<rparr>"
  from Acquire_Data n have ne: "q \<noteq> p" by auto
  then have e: "exec c s = Inr ?s'" using Acquire_Data by (simp add: acquire_data_eq)
  have wq: "list_all (\<lambda>q. q \<in> set ps) (pools_of c)" by (rule w)
  from exec_ledger[OF d wq e] have "mset (held ?s' ps) = mset (held s ps)"
    using Acquire_Data by simp
  then have "mset (held ?s' ps @ rest) = mset (held s ps @ accepted_by c @ rest)"
    using Acquire_Data by simp
  from well_owned_mset[OF this] o have "well_owned (heap ?s') (held ?s' ps @ rest)" by simp
  moreover have "calls ?s' = calls s @ []" "heap ?s' = freed [] (heap s)" "lock ?s' = lock s"
    by (simp_all add: freed_Nil)
  ultimately show ?thesis using e by blast
next
  case (Size p)
  let ?s' = "s\<lparr>accesses := accesses s @ [(p, True)]\<rparr>"
  from Size w have p: "p \<in> set ps" by simp
  with l have lp: "\<not> lock s p" by (simp add: list_all_iff)
  then have e: "exec c s = Inr ?s'" using Size by (simp add: size_pool_eq)
  have "held ?s' ps = held s ps" by (rule held_cong) simp
  then have "well_owned (heap ?s') (held ?s' ps @ rest)" using o Size by simp
  moreover have "calls ?s' = calls s @ []" "heap ?s' = freed [] (heap s)" "lock ?s' = lock s"
    by (simp_all add: freed_Nil)
  ultimately show ?thesis using e by blast
qed

lemma run_contract:
  "distinct ps \<Longrightarrow> among ps cs \<Longrightarrow> list_all no_self_acquire cs \<Longrightarrow>
   list_all (\<lambda>p. \<not> lock s p) ps \<Longrightarrow> well_owned (heap s) (held s ps @ accepted cs) \<Longrightarrow>
     \<exists>s' rel. run cs s = Inr s' \<and> lock s' = lock s \<and>
       calls s' = calls s @ rel \<and> heap s' = freed rel (heap s)"
proof (induction cs arbitrary: s)
  case Nil
  have "calls s = calls s @ []" "heap s = freed [] (heap s)" by (simp_all add: freed_Nil)
  then show ?case by (intro exI[of _ s] exI[of _ "[]"]) simp
next
  case (Cons c cs)
  from Cons.prems(2) have w: "list_all (\<lambda>q. q \<in> set ps) (pools_of c)" and ws: "among ps cs"
    by (simp_all add: among_def)
  from Cons.prems(3) have n: "no_self_acquire c" and ns: "list_all no_self_acquire cs"
    by simp_all
  from Cons.prems(5) have o: "well_owned (heap s) (held s ps @ accepted_by c @ accepted cs)"
    by (simp add: accepted_def)
  from exec_contract[OF Cons.prems(1) w n Cons.prems(4) o] obtain s1 rel1 where
    e: "exec c s = Inr s1" and l1: "lock s1 = lock s"
    and c1: "calls s1 = calls s @ rel1" and h1: "heap s1 = freed rel1 (heap s)"
    and o1: "well_owned (heap s1) (held s1 ps @ accepted cs)"
    by blast
  from Cons.prems(4) l1 have "list_all (\<lambda>p. \<not> lock s1 p) ps" by simp
  from Cons.IH[OF Cons.prems(1) ws ns this o1] obtain s' rel2 where
    r: "run cs s1 = Inr s'" and l2: "lock s' = lock s1"
    and c2: "calls s' = calls s1 @ rel2" and h2: "heap s' = freed rel2 (heap s1)"
    by blast
  have "run (c # cs) s = Inr s'" using e r by simp
  moreover have "lock s' = lock s" using l1 l2 by simp
  moreover have "calls s' = calls s @ (rel1 @ rel2)" using c1 c2 by simp
  moreover have "heap s' = freed (rel1 @ rel2) (heap s)" using h1 h2 by (simp add: freed_append)
  ultimately show ?case by blast
qed

lemma no_self_acquire_clears: "list_all no_self_acquire (map Clear ps)"
  by (induction ps) simp_all

text \<open>
  Claim C1. Take any pools \<open>ps\<close>, all empty and with free mutexes at the start, and any
  sequence of calls of \<open>add\<close>, \<open>add_array\<close>, \<open>clear\<close>, \<open>size\<close> and \<open>acquire_data\<close> on
  them in which no pool acquires from itself, followed by the destructors of all of them.
  Let the callers keep the contract: every pointer handed to a pool is null, or is a live
  allocation of the form its deletion function expects and is handed over once only. Then
  every call returns, the destructors included, and the deletion functions invoked over
  these lifetimes are, as a multiset, exactly the entries that were accepted: each
  accepted entry has had its deletion function invoked once, neither more often nor less,
  however many times \<open>clear\<close> was called in between. Every pool is empty at the end, and
  the free store has lost the accepted pointers and nothing else. For a single pool
  (\<open>ps = [p]\<close>) this is the claim for the lifetime of \<open>p\<close>.
\<close>

theorem single_release:
  assumes "distinct ps" and "among ps cs" and "list_all no_self_acquire cs"
    and "list_all (\<lambda>p. objects s p = []) ps" and "list_all (\<lambda>p. \<not> lock s p) ps"
    and "well_owned (heap s) (accepted cs)"
  shows "\<exists>s1 s' released. run cs s = Inr s1 \<and> destroy_all ps s1 = Inr s' \<and>
           calls s' = calls s @ released \<and>
           mset released = mset (accepted cs) \<and>
           list_all (\<lambda>p. objects s' p = []) ps \<and>
           heap s' = freed (accepted cs) (heap s)"
proof -
  let ?all = "cs @ map Clear ps"
  have am: "among ps ?all"
    using assms(2) by (simp add: among_append among_clears)
  have ns: "list_all no_self_acquire ?all"
    using assms(3) by (simp add: no_self_acquire_clears)
  have "well_owned (heap s) (held s ps @ accepted ?all)"
    using assms(4,6) by (simp add: held_empty accepted_append accepted_clears)
  from run_contract[OF assms(1) am ns assms(5) this] obtain s' rel where
    r: "run ?all s = Inr s'" and c: "calls s' = calls s @ rel"
    and h: "heap s' = freed rel (heap s)"
    by blast
  from r obtain s1 where r1: "run cs s = Inr s1" and r2: "run (map Clear ps) s1 = Inr s'"
    by (auto simp: run_append split: sum.splits)
  from r2 have d: "destroy_all ps s1 = Inr s'" by (simp add: destroy_all_eq)
  have e: "list_all (\<lambda>p. objects s' p = []) ps"
    using run_clears_objects[OF r2] by (simp add: list_all_iff)
  from run_ledger[OF assms(1) am r] obtain rel' where
    c': "calls s' = calls s @ rel'"
    and m': "mset rel' + mset (held s' ps) = mset (held s ps) + mset (accepted ?all)"
    by blast
  from c c' have "rel' = rel" by simp
  with m' e assms(4) have m: "mset rel = mset (accepted cs)"
    by (simp add: held_empty accepted_append accepted_clears)
  then have "set rel = set (accepted cs)" by (rule mset_eq_setD)
  then have "freed rel (heap s) = freed (accepted cs) (heap s)" by (rule freed_set)
  with h have "heap s' = freed (accepted cs) (heap s)" by simp
  with r1 d c m e show ?thesis by blast
qed

theorem single_release_witness:
  "distinct [1, 2 :: pool_id] \<and> among [1, 2] lifetimes \<and>
   list_all no_self_acquire lifetimes \<and>
   list_all (\<lambda>p. objects (init heap0) p = []) [1, 2] \<and>
   list_all (\<lambda>p. \<not> lock (init heap0) p) [1, 2] \<and>
   well_owned (heap (init heap0)) (accepted lifetimes) \<and>
   (\<exists>s1 s'. run lifetimes (init heap0) = Inr s1 \<and> destroy_all [1, 2] s1 = Inr s' \<and>
      calls s' = [\<lparr>obj = 10, delete_fn = Delete_Scalar ''A''\<rparr>,
                  \<lparr>obj = 30, delete_fn = Delete_Scalar ''C''\<rparr>,
                  \<lparr>obj = 20, delete_fn = Delete_Array ''B''\<rparr>] \<and>
      mset (calls s') = mset (accepted lifetimes) \<and>
      list_all (\<lambda>p. objects s' p = []) [1, 2] \<and>
      heap s' = Map.empty)"
proof -
  have a: "distinct [1, 2 :: pool_id]" by simp
  have b: "among [1, 2] lifetimes" by (simp add: among_def lifetimes_def)
  have n: "list_all no_self_acquire lifetimes" by (simp add: lifetimes_def)
  have c: "list_all (\<lambda>p. objects (init heap0) p = []) [1, 2]" by (simp add: init_def)
  have l: "list_all (\<lambda>p. \<not> lock (init heap0) p) [1, 2]" by (simp add: init_def)
  have w: "well_owned (heap (init heap0)) (accepted lifetimes)"
    by (simp add: init_def heap0_def accepted_def lifetimes_def well_owned_def nullptr_def)
  have f: "freed (accepted lifetimes) (heap (init heap0)) = Map.empty"
    by (auto simp: freed_def accepted_def lifetimes_def init_def heap0_def nullptr_def fun_eq_iff)
  obtain s1 where d: "run lifetimes (init heap0) = Inr s1"
    and d1: "calls s1 = [\<lparr>obj = 10, delete_fn = Delete_Scalar ''A''\<rparr>]"
    and d2: "objects s1 = (\<lambda>_. [])(1 := [\<lparr>obj = 20, delete_fn = Delete_Array ''B''\<rparr>,
                                           \<lparr>obj = 30, delete_fn = Delete_Scalar ''C''\<rparr>])"
    and d3: "lock s1 = (\<lambda>_. False)"
    and d4: "heap s1 = [20 \<mapsto> Array, 30 \<mapsto> Scalar]"
    by (simp add: lifetimes_def init_def heap0_def add_eq add_array_eq clear_eq size_pool_eq
        acquire_data_eq delete_expr_def nullptr_def fun_eq_iff)
  obtain s' where e: "destroy_all [1, 2] s1 = Inr s'"
    and e1: "calls s' = [\<lparr>obj = 10, delete_fn = Delete_Scalar ''A''\<rparr>,
                  \<lparr>obj = 30, delete_fn = Delete_Scalar ''C''\<rparr>,
                  \<lparr>obj = 20, delete_fn = Delete_Array ''B''\<rparr>]"
    using d1 d2 d3 d4
    by (simp add: destroy_def clear_eq delete_expr_def nullptr_def)
  from single_release[OF a b n c l w] a b n c l w d e e1 f
  show ?thesis by (auto simp: init_def)
qed

section \<open>The result of \<open>size\<close>\<close>

lemma exec_lock: "exec c s = Inr s' \<Longrightarrow> lock s' = lock s"
  by (cases c)
     (auto simp: add_eq add_array_eq clear_eq size_pool_eq acquire_data_eq
           split: if_splits sum.splits)

lemma run_lock: "run cs s = Inr s' \<Longrightarrow> lock s' = lock s"
proof (induction cs arbitrary: s)
  case Nil
  then show ?case by simp
next
  case (Cons c cs)
  from Cons.prems obtain s1 where e: "exec c s = Inr s1" and r: "run cs s1 = Inr s'"
    by (auto split: sum.splits)
  from Cons.IH[OF r] exec_lock[OF e] show ?case by simp
qed

lemma exec_length:
  "exec c s = Inr s' \<Longrightarrow> (\<lambda>p. length (objects s' p)) = owned_step c (\<lambda>p. length (objects s p))"
  by (cases c)
     (auto simp: add_eq add_array_eq clear_eq size_pool_eq acquire_data_eq fun_eq_iff
           split: if_splits sum.splits)

lemma run_length:
  "run cs s = Inr s' \<Longrightarrow>
     (\<lambda>p. length (objects s' p)) = fold owned_step cs (\<lambda>p. length (objects s p))"
proof (induction cs arbitrary: s)
  case Nil
  then show ?case by simp
next
  case (Cons c cs)
  from Cons.prems obtain s1 where e: "exec c s = Inr s1" and r: "run cs s1 = Inr s'"
    by (auto split: sum.splits)
  from Cons.IH[OF r] exec_length[OF e] show ?case by simp
qed

text \<open>
  Claim C6, as amended. After any sequence of calls on pools that were all constructed
  empty, \<open>size()\<close> of a pool returns the number of entries the pool has accepted (through
  \<open>add\<close> and \<open>add_array\<close>, or received through \<open>acquire_data\<close>) and has neither released
  by \<open>clear\<close> nor handed over to another pool through \<open>acquire_data\<close>; this number is
  the length of its vector. A pool just constructed has size 0, and so has a pool that
  \<open>clear\<close> has just returned from.
\<close>

theorem size_accounting:
  assumes "run cs (init h) = Inr s" and "owned_not_released cs p < 2 ^ 64"
  shows "(\<exists>n s'. size_pool p s = Inr (n, s') \<and> unat n = owned_not_released cs p) \<and>
         length (objects s p) = owned_not_released cs p \<and>
         (\<exists>s'. size_pool p (init h) = Inr (0, s')) \<and>
         (\<forall>s1. clear p s = Inr ((), s1) \<longrightarrow> (\<exists>s'. size_pool p s1 = Inr (0, s')))"
proof -
  have l: "lock s = (\<lambda>_. False)"
    using run_lock[OF assms(1)] by (simp add: init_def)
  have "(\<lambda>p. length (objects s p)) = owned_not_released cs"
    using run_length[OF assms(1)] by (simp add: owned_not_released_def init_def)
  then have n: "length (objects s p) = owned_not_released cs p"
    by (simp add: fun_eq_iff)
  have "\<exists>n s'. size_pool p s = Inr (n, s') \<and> unat n = owned_not_released cs p"
    using l n assms(2) by (simp add: size_pool_eq unat_size)
  moreover have "\<exists>s'. size_pool p (init h) = Inr (0, s')"
    by (simp add: size_pool_eq init_def)
  moreover have "\<exists>s'. size_pool p s1 = Inr (0, s')" if "clear p s = Inr ((), s1)" for s1
    using that by (auto simp: clear_eq size_pool_eq split: if_splits sum.splits)
  ultimately show ?thesis using n by blast
qed

theorem size_accounting_witness:
  "run donor_history (init heap0) = Inr after_donation \<and>
   owned_not_released donor_history 1 < 2 ^ 64 \<and>
   owned_not_released donor_history 1 = 1 \<and>
   owned_not_released donor_history 2 = 0 \<and>
   (\<exists>s'. size_pool 1 after_donation = Inr (1, s')) \<and>
   (\<exists>s1 s'. clear 1 after_donation = Inr ((), s1) \<and> size_pool 1 s1 = Inr (0, s'))"
proof -
  have a: "run donor_history (init heap0) = Inr after_donation"
    by (simp add: donor_history_def after_donation_def init_def add_eq acquire_data_eq fun_eq_iff)
  have v1: "owned_not_released donor_history 1 = 1" and v2: "owned_not_released donor_history 2 = 0"
    by (simp_all add: owned_not_released_def donor_history_def)
  have b: "owned_not_released donor_history 1 < 2 ^ 64" unfolding v1 by simp
  obtain s1 where c: "clear 1 after_donation = Inr ((), s1)"
    by (simp add: clear_eq after_donation_def heap0_def delete_expr_def nullptr_def)
  from size_accounting[OF a b] c a b v1 v2
  show ?thesis by (auto simp: size_pool_eq after_donation_def)
qed

text \<open>
  Claim C6 as it was stated counts the entries a pool has accepted and that have not been
  released. Pool 2 below has accepted one entry and no deletion function has been invoked
  at all, yet its \<open>size()\<close> is 0 and not 1: pool 1 has taken the entry over.
\<close>

theorem size_of_donor_counterexample:
  "run donor_history (init heap0) = Inr after_donation \<and>
   accepted (filter (own_call 2) donor_history) = [\<lparr>obj = 10, delete_fn = Delete_Scalar ''A''\<rparr>] \<and>
   calls after_donation = [] \<and>
   map_sum id fst (size_pool 2 after_donation) = Inr 0"
  by (simp add: donor_history_def after_donation_def init_def add_eq acquire_data_eq fun_eq_iff
      accepted_def size_pool_eq)

section \<open>The mutex and \<open>acquire_data\<close>\<close>

text \<open>
  Claim C5 says that \<open>acquire_data\<close> holds the receiving pool's mutex during the insert.
  The function has no lock guard: with every mutex free before the call, each of its three
  accesses to the vectors of the two pools finds the mutex of that pool unlocked, the
  receiver's as well as the donor's, whereas \<open>add\<close>, \<open>clear\<close> and \<open>size\<close> touch the vector
  with the mutex locked.
\<close>

theorem acquire_data_takes_no_lock:
  "map_sum id (accesses \<circ> snd) (acquire_data 1 2 donor_state) =
     Inr [(1, False), (2, False), (2, False)] \<and>
   map_sum id (objects \<circ> snd) (acquire_data 1 2 donor_state) =
     Inr ((\<lambda>_. [])(1 := three, 2 := [])) \<and>
   map_sum id (accesses \<circ> snd) (add 1 ''C'' 30 donor_state) = Inr [(1, True)] \<and>
   map_sum id (accesses \<circ> snd) (clear 1 donor_state) = Inr [(1, True), (1, True)] \<and>
   map_sum id (accesses \<circ> snd) (size_pool 1 donor_state) = Inr [(1, True)]"
  by (simp add: acquire_data_def add_def clear_def size_pool_def lock_guard_def touch_def
      emplace_back_def donor_state_def init_def three_def heap0_def delete_expr_def nullptr_def
      fun_eq_iff)

end
